theory Spec2Isabelle
  imports Complex_Main "HOL-Library.Log_Nat"
begin

section \<open>Text literals and paths\<close>

text \<open>
  The user-visible literals of \<^verbatim>\<open>main.py\<close> are Cyrillic. A HOL \<^typ>\<open>char\<close> is
  eight bits wide, so each literal is written here in Latin transliteration, one constant
  per literal. Nothing below depends on the letters: only on which literal is which, and on
  the error texts being the word for "error" followed by a colon and the message.
\<close>

definition status_waiting :: string where
  "status_waiting = ''Ozhidanie''"

definition status_in_progress :: string where
  "status_in_progress = ''V protsesse''"

definition status_done :: string where
  "status_done = ''Gotovo''"

definition status_error :: string where
  "status_error = ''Oshibka''"

definition status_loading :: string where
  "status_loading = ''Zagruzka''"

definition loading_text :: string where
  "loading_text = ''Zagruzka Whisper...''"

definition loaded_text :: string where
  "loaded_text = ''Model zagruzhena''"

definition error_text :: "string \<Rightarrow> string" where
  \<comment> \<open>the f-string of lines 88 and 119: the error word, a colon, a blank, \<^verbatim>\<open>str(e)\<close>\<close>
  "error_text e = status_error @ '': '' @ e"

definition extraction_error_text :: "string \<Rightarrow> string" where
  \<comment> \<open>the f-string of line 48\<close>
  "extraction_error_text e = ''Oshibka izvlecheniya audio: '' @ e"

text \<open>\<^verbatim>\<open>s.rsplit('.', 1)[0]\<close>: the text before the last dot, or all of \<open>s\<close> without one.\<close>

definition rsplit_dot :: "string \<Rightarrow> string" where
  "rsplit_dot s =
     (if CHR ''.'' \<in> set s then rev (tl (dropWhile (\<lambda>c. c \<noteq> CHR ''.'') (rev s))) else s)"

definition temp_audio_path_of :: "string \<Rightarrow> string" where
  \<comment> \<open>line 41\<close>
  "temp_audio_path_of video_path = rsplit_dot video_path @ ''_temp_audio.wav''"

text \<open>
  \<^verbatim>\<open>Path(file_path).suffix.lower()\<close>, for the POSIX flavour of \<^verbatim>\<open>pathlib\<close>: the path
  is split at the slashes, empty components and single dots are dropped, the name is the last
  component left, and the suffix is the name from its last dot on when that dot is neither
  the first nor the last character of the name.
\<close>

fun split_on :: "char \<Rightarrow> string \<Rightarrow> string list" where
  "split_on sep [] = [[]]"
| "split_on sep (c # cs) =
     (if c = sep then [] # split_on sep cs
      else (case split_on sep cs of [] \<Rightarrow> [[c]] | w # ws \<Rightarrow> (c # w) # ws))"

definition path_name :: "string \<Rightarrow> string" where
  "path_name p =
     (let parts = filter (\<lambda>x. x \<noteq> [] \<and> x \<noteq> ''.'') (split_on CHR ''/'' p)
      in if parts = [] then [] else last parts)"

definition rfind :: "char \<Rightarrow> string \<Rightarrow> nat option" where
  \<comment> \<open>\<^verbatim>\<open>str.rfind\<close>, with \<open>None\<close> for its \<open>-1\<close>\<close>
  "rfind c s =
     (if c \<in> set s then Some (length s - 1 - length (takeWhile (\<lambda>x. x \<noteq> c) (rev s)))
      else None)"

definition path_suffix :: "string \<Rightarrow> string" where
  "path_suffix p =
     (let name = path_name p
      in case rfind CHR ''.'' name of
           None \<Rightarrow> []
         | Some i \<Rightarrow> if 0 < i \<and> i + 1 < length name then drop i name else [])"

definition lower_char :: "char \<Rightarrow> char" where
  "lower_char c =
     (case map_of (zip ''ABCDEFGHIJKLMNOPQRSTUVWXYZ'' ''abcdefghijklmnopqrstuvwxyz'') c of
        Some d \<Rightarrow> d
      | None \<Rightarrow> c)"

definition lower :: "string \<Rightarrow> string" where
  "lower s = map lower_char s"

definition video_extensions :: "string list" where
  \<comment> \<open>line 57\<close>
  "video_extensions =
     [''.mp4'', ''.avi'', ''.mov'', ''.mkv'', ''.flv'', ''.wmv'', ''.webm'', ''.m4v'']"

definition is_video :: "string \<Rightarrow> bool" where
  \<comment> \<open>lines 58 and 60\<close>
  "is_video file_path = (lower (path_suffix file_path) \<in> set video_extensions)"



section \<open>The progress percentage\<close>

text \<open>
  Line 113 computes \<^verbatim>\<open>int((completed / total_files) * 100)\<close>. In Python 3 the
  quotient of two integers is a binary64 float, correctly rounded; the product with 100 is
  a binary64 multiplication; \<^verbatim>\<open>int\<close> truncates towards zero. Binary64 rounding is
  modelled exactly on the rationals: \<open>rne\<close> rounds to the nearest integer, ties to even;
  \<open>binade x\<close> is the exponent \<open>e\<close> with \<open>2 powi e \<le> x < 2 powi (e + 1)\<close>; \<open>fl x\<close> keeps 53
  significant bits. Overflow and subnormal numbers are left out: the values that occur here
  lie between \<open>1 / total_files\<close> and 100.
\<close>

definition rne :: "rat \<Rightarrow> int" where
  "rne y = (let n = \<lfloor>y\<rfloor>; f = y - of_int n
            in if f < 1/2 then n else if 1/2 < f then n + 1
               else if even n then n else n + 1)"

definition binade :: "rat \<Rightarrow> int" where
  "binade x = (if 1 \<le> x then bitlen \<lfloor>x\<rfloor> - 1 else - bitlen (\<lceil>1 / x\<rceil> - 1))"

definition fl :: "rat \<Rightarrow> rat" where
  "fl x = (if x = 0 then 0
           else let e = binade \<bar>x\<bar> - 52 in of_int (rne (x / 2 powi e)) * 2 powi e)"

definition py_int :: "rat \<Rightarrow> int" where
  "py_int x = (if 0 \<le> x then \<lfloor>x\<rfloor> else \<lceil>x\<rceil>)"

definition progress_percent :: "nat \<Rightarrow> nat \<Rightarrow> int" where
  \<comment> \<open>line 113\<close>
  "progress_percent completed total_files =
     py_int (fl (fl (of_nat completed / of_nat total_files) * 100))"

section \<open>Work items and the worker\<close>

record FileItem =
  file_path :: string
  status :: string
  transcription :: string
  error_message :: string

definition new_item :: "string \<Rightarrow> FileItem" where
  \<comment> \<open>\<^verbatim>\<open>FileItem.__init__\<close>, lines 18 to 22\<close>
  "new_item p = \<lparr>file_path = p, status = status_waiting, transcription = [], error_message = []\<rparr>"

text \<open>
  The three signals of \<^verbatim>\<open>TranscriptionWorker\<close>: \<^verbatim>\<open>progress_update(int, str, str)\<close>,
  \<^verbatim>\<open>file_progress(int)\<close> and \<^verbatim>\<open>finished()\<close>. A run is observed as the list of
  signals it emits.
\<close>

datatype event = ProgressUpdate int string string | FileProgress int | Finished

record worker =
  files :: "FileItem list"
  model_name :: string
  language :: "string option"
  task :: string
  max_workers :: nat

text \<open>
  What lies outside the program is given to the model as outcomes. The disk is the set of
  paths that exist. Writing the audio track either succeeds, and the file exists, or raises
  with a message, having left a partial file behind or not. The engine returns a text or
  raises. \<^verbatim>\<open>os.remove\<close> deletes the file or raises.
\<close>

datatype extract_outcome = ExtractOk | ExtractRaises string bool

datatype engine_outcome = EngineOk string | EngineRaises string

datatype remove_outcome = RemoveOk | RemoveRaises string

datatype load_outcome = LoadOk | LoadRaises string

record item_env =
  extraction :: extract_outcome
  engine :: "string \<Rightarrow> string \<Rightarrow> string option \<Rightarrow> engine_outcome"
  remove_first :: remove_outcome
  remove_second :: remove_outcome

text \<open>
  \<open>engine env audio_path task language\<close> is \<^verbatim>\<open>self.model.transcribe\<close> with
  \<^verbatim>\<open>result["text"]\<close> taken; \<open>remove_first\<close> is the call of line 83 and
  \<open>remove_second\<close> the call of line 92.
\<close>

definition extract_audio_from_video ::
    "extract_outcome \<Rightarrow> string set \<Rightarrow> string \<Rightarrow> (string + string) \<times> string set" where
  \<comment> \<open>lines 40 to 48; \<open>Inl\<close> is the exception raised on line 48\<close>
  "extract_audio_from_video outcome disk video_path =
     (let temp_audio_path = temp_audio_path_of video_path
      in case outcome of
           ExtractOk \<Rightarrow> (Inr temp_audio_path, insert temp_audio_path disk)
         | ExtractRaises e partial \<Rightarrow>
             (Inl (extraction_error_text e),
              if partial then insert temp_audio_path disk else disk))"

definition on_exception ::
    "item_env \<Rightarrow> string set \<Rightarrow> FileItem \<Rightarrow> int \<Rightarrow> string option \<Rightarrow> string \<Rightarrow> event list
       \<Rightarrow> FileItem \<times> event list \<times> string set" where
  \<comment> \<open>the handler, lines 85 to 94; \<open>temp_audio_path\<close> is the local variable as it stands
      when the exception arrives\<close>
  "on_exception env disk file_item index temp_audio_path e evs =
     (file_item\<lparr>status := status_error, error_message := e\<rparr>,
      evs @ [ProgressUpdate index (file_path file_item) (error_text e)],
      case temp_audio_path of
        None \<Rightarrow> disk
      | Some p \<Rightarrow>
          if p \<noteq> [] \<and> p \<in> disk
          then (case remove_second env of RemoveOk \<Rightarrow> disk - {p} | RemoveRaises _ \<Rightarrow> disk)
          else disk)"

definition call_engine :: "worker \<Rightarrow> item_env \<Rightarrow> string \<Rightarrow> engine_outcome" where
  \<comment> \<open>lines 66 to 76\<close>
  "call_engine w env audio_path =
     (if (case language w of None \<Rightarrow> False | Some l \<Rightarrow> l \<noteq> [] \<and> l \<noteq> ''auto'')
      then engine env audio_path (task w) (language w)
      else engine env audio_path (task w) None)"

definition transcribe_audio ::
    "worker \<Rightarrow> item_env \<Rightarrow> string set \<Rightarrow> FileItem \<Rightarrow> int \<Rightarrow> string option \<Rightarrow> string
       \<Rightarrow> event list \<Rightarrow> FileItem \<times> event list \<times> string set" where
  \<comment> \<open>lines 66 to 83, once \<open>audio_path\<close> is known\<close>
  "transcribe_audio w env disk file_item index temp_audio_path audio_path evs =
     (case call_engine w env audio_path of
        EngineRaises e \<Rightarrow> on_exception env disk file_item index temp_audio_path e evs
      | EngineOk text \<Rightarrow>
          (let item1 = file_item\<lparr>transcription := text, status := status_done\<rparr>;
               evs1 = evs @ [ProgressUpdate index (file_path file_item) status_done]
           in case temp_audio_path of
                None \<Rightarrow> (item1, evs1, disk)
              | Some p \<Rightarrow>
                  if p \<noteq> [] \<and> p \<in> disk
                  then (case remove_first env of
                          RemoveOk \<Rightarrow> (item1, evs1, disk - {p})
                        | RemoveRaises e \<Rightarrow> on_exception env disk item1 index temp_audio_path e evs1)
                  else (item1, evs1, disk)))"

definition transcribe_file ::
    "worker \<Rightarrow> item_env \<Rightarrow> string set \<Rightarrow> FileItem \<Rightarrow> int
       \<Rightarrow> FileItem \<times> event list \<times> string set" where
  \<comment> \<open>lines 50 to 94\<close>
  "transcribe_file w env disk file_item index =
     (let evs = [ProgressUpdate index (file_path file_item) status_in_progress]
      in if is_video (file_path file_item)
         then (case extract_audio_from_video (extraction env) disk (file_path file_item) of
                 (Inl e, disk1) \<Rightarrow> on_exception env disk1 file_item index None e evs
               | (Inr temp_audio_path, disk1) \<Rightarrow>
                   transcribe_audio w env disk1 file_item index (Some temp_audio_path)
                     temp_audio_path evs)
         else transcribe_audio w env disk file_item index None (file_path file_item) evs)"

text \<open>
  \<^verbatim>\<open>run\<close>, lines 96 to 120. Every item is submitted to the pool, and the loop over
  \<^verbatim>\<open>as_completed\<close> sees the futures in the order in which they complete: the list
  \<open>order\<close> of item indices. \<open>settle\<close> is one item running to its end followed by one
  turn of that loop. An item is touched by its own task only, so what an item ends as does
  not depend on how the tasks interleave; the signals of one item are kept together here.
  The indices come from \<^verbatim>\<open>enumerate(self.files)\<close> and are always in range.
\<close>

definition settle ::
    "worker \<Rightarrow> (nat \<Rightarrow> item_env) \<Rightarrow> nat
       \<Rightarrow> FileItem list \<times> event list \<times> string set \<times> nat \<Rightarrow> nat
       \<Rightarrow> FileItem list \<times> event list \<times> string set \<times> nat" where
  "settle w envs total_files st idx =
     (case st of (fs, evs, disk, completed) \<Rightarrow>
        if idx < length fs
        then (case transcribe_file w (envs idx) disk (fs ! idx) (int idx) of
                (file_item, item_evs, disk1) \<Rightarrow>
                  (fs[idx := file_item],
                   evs @ item_evs @ [FileProgress (progress_percent (completed + 1) total_files)],
                   disk1, completed + 1))
        else st)"

definition run ::
    "worker \<Rightarrow> load_outcome \<Rightarrow> (nat \<Rightarrow> item_env) \<Rightarrow> nat list \<Rightarrow> string set
       \<Rightarrow> FileItem list \<times> event list \<times> string set" where
  "run w load envs order disk =
     (let evs0 = [ProgressUpdate (- 1) loading_text status_loading]
      in case load of
           LoadRaises e \<Rightarrow>
             (files w, evs0 @ [ProgressUpdate (- 1) (error_text e) status_error, Finished], disk)
         | LoadOk \<Rightarrow>
             (case foldl (settle w envs (length (files w)))
                     (files w, evs0 @ [ProgressUpdate (- 1) loaded_text status_done], disk, 0)
                     order of
                (fs, evs, disk1, completed) \<Rightarrow> (fs, evs @ [Finished], disk1)))"

definition completion_order :: "nat \<Rightarrow> nat list \<Rightarrow> bool" where
  \<comment> \<open>every submitted future completes, once\<close>
  "completion_order n order = (distinct order \<and> set order = {0..<n})"

definition progress_values :: "event list \<Rightarrow> int list" where
  "progress_values evs = concat (map (\<lambda>e. case e of FileProgress p \<Rightarrow> [p] | _ \<Rightarrow> []) evs)"

definition item_events :: "event list \<Rightarrow> event list" where
  \<comment> \<open>the per-item status signals: \<^verbatim>\<open>progress_update\<close> with an index other than -1\<close>
  "item_events evs = filter (\<lambda>e. case e of ProgressUpdate i _ _ \<Rightarrow> i \<noteq> - 1 | _ \<Rightarrow> False) evs"

section \<open>The application's start request\<close>

record app =
  app_files :: "FileItem list"
  app_worker :: "worker option"
  worker_running :: bool
  overall_progress :: int
  start_enabled :: bool
  save_enabled :: bool
  model_combo :: string
  language_combo :: string
  translate_checkbox :: bool

text \<open>
  \<open>worker_running\<close> is \<^verbatim>\<open>self.worker.isRunning()\<close>. The worker is given the list
  object of the application itself; the copy held in \<open>app_worker\<close> stands for that one list.
\<close>

datatype dialog = WarningBox string string

definition reset_item :: "FileItem \<Rightarrow> FileItem" where
  \<comment> \<open>lines 292 to 294\<close>
  "reset_item f = f\<lparr>status := status_waiting, transcription := [], error_message := []\<rparr>"

definition start_transcription :: "app \<Rightarrow> app \<times> dialog list" where
  \<comment> \<open>lines 282 to 312\<close>
  "start_transcription a =
     (if app_files a = []
      then (a, [WarningBox ''Net faylov'' ''Pozhaluysta, dobavte fayly dlya transkriptsii.''])
      else if app_worker a \<noteq> None \<and> worker_running a
      then (a, [WarningBox ''V protsesse'' ''Transkriptsiya uzhe vypolnyaetsya.''])
      else
        (let fs = map reset_item (app_files a);
             lang = (if language_combo a = ''auto'' then None else Some (language_combo a));
             tsk = (if translate_checkbox a then ''translate'' else ''transcribe'');
             w = \<lparr>files = fs, model_name = model_combo a, language = lang, task = tsk,
                  max_workers = 2\<rparr>
         in (a\<lparr>app_files := fs, app_worker := Some w, worker_running := True,
                overall_progress := 0, start_enabled := False, save_enabled := False\<rparr>, [])))"

section \<open>The thread pool\<close>

text \<open>
  \<^verbatim>\<open>ThreadPoolExecutor(max_workers=self.max_workers)\<close> runs the submitted calls of
  \<^verbatim>\<open>transcribe_file\<close> on at most \<open>max_workers\<close> threads, taking them from its queue
  in the order of submission. A task is queued, or inside
  \<^verbatim>\<open>extract_audio_from_video\<close> (line 61), or inside \<^verbatim>\<open>self.model.transcribe\<close>
  (lines 67 to 76), or settled. The code takes no lock anywhere, so any thread may take its
  next step at any time: a schedule is the list of steps in the order they happen.
\<close>

datatype task_phase = Queued | Extracting | Transcribing | Settled

datatype pool_action = StartNext | Extracted nat | ExtractFailed nat | Transcribed nat

definition busy :: "task_phase list \<Rightarrow> nat" where
  "busy ps = length (filter (\<lambda>p. p = Extracting \<or> p = Transcribing) ps)"

definition in_engine :: "task_phase list \<Rightarrow> nat" where
  "in_engine ps = length (filter (\<lambda>p. p = Transcribing) ps)"

definition first_queued :: "task_phase list \<Rightarrow> nat option" where
  "first_queued ps =
     (if Queued \<in> set ps then Some (length (takeWhile (\<lambda>p. p \<noteq> Queued) ps)) else None)"

fun pool_apply :: "worker \<Rightarrow> task_phase list \<Rightarrow> pool_action \<Rightarrow> task_phase list option" where
  "pool_apply w ps StartNext =
     (if busy ps < max_workers w
      then (case first_queued ps of
              None \<Rightarrow> None
            | Some i \<Rightarrow>
                Some (ps[i := (if is_video (file_path (files w ! i)) then Extracting
                               else Transcribing)]))
      else None)"
| "pool_apply w ps (Extracted i) =
     (if i < length ps \<and> ps ! i = Extracting then Some (ps[i := Transcribing]) else None)"
| "pool_apply w ps (ExtractFailed i) =
     (if i < length ps \<and> ps ! i = Extracting then Some (ps[i := Settled]) else None)"
| "pool_apply w ps (Transcribed i) =
     (if i < length ps \<and> ps ! i = Transcribing then Some (ps[i := Settled]) else None)"

fun pool_run :: "worker \<Rightarrow> task_phase list \<Rightarrow> pool_action list \<Rightarrow> task_phase list option" where
  "pool_run w ps [] = Some ps"
| "pool_run w ps (a # as) =
     (case pool_apply w ps a of None \<Rightarrow> None | Some ps1 \<Rightarrow> pool_run w ps1 as)"

definition pool_start :: "worker \<Rightarrow> task_phase list" where
  "pool_start w = replicate (length (files w)) Queued"

section \<open>Vocabulary of the properties\<close>

definition terminal :: "FileItem \<Rightarrow> bool" where
  "terminal f = (status f = status_done \<or> status f = status_error)"


definition files_after :: "FileItem list \<times> event list \<times> string set \<Rightarrow> FileItem list" where
  "files_after r = fst r"

definition emitted :: "'a \<times> event list \<times> string set \<Rightarrow> event list" where
  "emitted r = fst (snd r)"


section \<open>Concrete inputs\<close>

definition audio_worker :: worker where
  "audio_worker = \<lparr>files = [new_item ''talk.mp3'', new_item ''memo.wav''], model_name = ''base'',
     language = None, task = ''transcribe'', max_workers = 2\<rparr>"

definition clip_worker :: worker where
  "clip_worker = \<lparr>files = [new_item ''clip.mp4''], model_name = ''base'',
     language = None, task = ''transcribe'', max_workers = 2\<rparr>"

definition fifty_worker :: worker where
  "fifty_worker = \<lparr>files = replicate 50 (new_item ''talk.mp3''), model_name = ''base'',
     language = None, task = ''transcribe'', max_workers = 2\<rparr>"

definition silent_env :: item_env where
  \<comment> \<open>the engine finds no speech and returns the empty text\<close>
  "silent_env = \<lparr>extraction = ExtractOk, engine = (\<lambda>audio_path tsk lang. EngineOk []),
     remove_first = RemoveOk, remove_second = RemoveOk\<rparr>"

definition locked_env :: item_env where
  \<comment> \<open>the temporary file cannot be deleted\<close>
  "locked_env = \<lparr>extraction = ExtractOk, engine = (\<lambda>audio_path tsk lang. EngineOk ''hello''),
     remove_first = RemoveRaises ''Permission denied'',
     remove_second = RemoveRaises ''Permission denied''\<rparr>"

definition undecodable_env :: item_env where
  \<comment> \<open>writing the audio track fails part-way\<close>
  "undecodable_env = \<lparr>extraction = ExtractRaises ''Invalid data found'' True,
     engine = (\<lambda>audio_path tsk lang. EngineOk ''hello''),
     remove_first = RemoveOk, remove_second = RemoveOk\<rparr>"




definition all_silent :: "nat \<Rightarrow> item_env" where
  "all_silent idx = silent_env"

definition failed_item :: FileItem where
  "failed_item = \<lparr>file_path = ''talk.mp3'', status = status_error, transcription = [],
     error_message = ''out of memory''\<rparr>"

definition idle_app :: app where
  "idle_app = \<lparr>app_files = [failed_item], app_worker = None, worker_running = False,
     overall_progress = 100, start_enabled = True, save_enabled = True,
     model_combo = ''base'', language_combo = ''auto'', translate_checkbox = False\<rparr>"

definition restarted_worker :: worker where
  "restarted_worker = \<lparr>files = [new_item ''talk.mp3''], model_name = ''base'',
     language = None, task = ''transcribe'', max_workers = 2\<rparr>"

definition restarted_app :: app where
  "restarted_app = \<lparr>app_files = [new_item ''talk.mp3''], app_worker = Some restarted_worker,
     worker_running = True, overall_progress = 0, start_enabled = False, save_enabled = False,
     model_combo = ''base'', language_combo = ''auto'', translate_checkbox = False\<rparr>"

section \<open>Rounding to binary64\<close>

lemma rne_ge_floor: "\<lfloor>y\<rfloor> \<le> rne y"
  by (simp add: rne_def Let_def)

lemma rne_le_floor1: "rne y \<le> \<lfloor>y\<rfloor> + 1"
  by (simp add: rne_def Let_def)

lemma rne_mono: "y \<le> z \<Longrightarrow> rne y \<le> rne z"
proof -
  assume yz: "y \<le> z"
  have fl: "\<lfloor>y\<rfloor> \<le> \<lfloor>z\<rfloor>" using yz by (rule floor_mono)
  show ?thesis
  proof (cases "\<lfloor>y\<rfloor> = \<lfloor>z\<rfloor>")
    case True
    then show ?thesis using yz by (auto simp: rne_def Let_def)
  next
    case False
    then have "\<lfloor>y\<rfloor> + 1 \<le> \<lfloor>z\<rfloor>" using fl by linarith
    then show ?thesis using rne_le_floor1[of y] rne_ge_floor[of z] by linarith
  qed
qed

lemma rne_of_int: "rne (of_int n) = n"
  by (simp add: rne_def Let_def)

lemma rne_error: "\<bar>of_int (rne y) - y\<bar> \<le> 1/2"
proof -
  have a: "of_int \<lfloor>y\<rfloor> \<le> y" and b: "y < of_int \<lfloor>y\<rfloor> + 1" by linarith+
  show ?thesis using a b by (auto simp: rne_def Let_def abs_le_iff)
qed

lemma binade_ge1:
  assumes "1 \<le> x"
  shows "2 powi binade x \<le> x \<and> x < 2 powi (binade x + 1)"
proof -
  define n where "n = \<lfloor>x\<rfloor>"
  have n1: "1 \<le> n" using assms by (simp add: n_def)
  then have npos: "0 < n" by simp
  have k0: "1 \<le> bitlen n" using npos bitlen_ge_iff_power[of 1 n] by simp
  have b: "binade x = bitlen n - 1" using assms by (simp add: binade_def n_def)
  from bitlen_bounds[OF npos]
  have lo: "(2::int) ^ nat (bitlen n - 1) \<le> n" and hi: "n < 2 ^ nat (bitlen n)" by auto
  have "(2::rat) powi (bitlen n - 1) = of_int (2 ^ nat (bitlen n - 1))"
    using k0 by (simp add: power_int_def)
  also have "\<dots> \<le> of_int n" using lo by (simp only: of_int_le_iff)
  also have "\<dots> \<le> x" by (simp add: n_def)
  finally have A: "2 powi binade x \<le> x" by (simp add: b)
  have "x < of_int (n + 1)" unfolding n_def by linarith
  also have "\<dots> \<le> of_int (2 ^ nat (bitlen n))" using hi by (simp only: of_int_le_iff)
  also have "\<dots> = (2::rat) powi (bitlen n)" using k0 by (simp add: power_int_def)
  finally have B: "x < 2 powi (binade x + 1)" by (simp add: b)
  from A B show ?thesis ..
qed

lemma binade_lt1:
  assumes "0 < x" "x < 1"
  shows "2 powi binade x \<le> x \<and> x < 2 powi (binade x + 1)"
proof -
  define y where "y = 1 / x"
  define m where "m = \<lceil>y\<rceil> - 1"
  define k where "k = nat (bitlen m)"
  have y1: "1 < y" using assms by (simp add: y_def)
  have xy: "x = 1 / y" by (simp add: y_def)
  have my: "of_int m < y" unfolding m_def by linarith
  have ym: "y \<le> of_int (m + 1)" unfolding m_def by simp
  have "1 < \<lceil>y\<rceil>" using y1 by (simp add: less_ceiling_iff)
  then have mpos: "0 < m" by (simp add: m_def)
  have k0: "1 \<le> bitlen m" using mpos bitlen_ge_iff_power[of 1 m] by simp
  then have kb: "bitlen m = int k" and k1: "1 \<le> k" by (simp_all add: k_def)
  have km: "nat (bitlen m - 1) = k - 1" by (simp add: k_def nat_diff_distrib)
  have b: "binade x = - int k" using assms kb by (simp add: binade_def m_def y_def)
  from bitlen_bounds[OF mpos]
  have lo: "(2::int) ^ (k - 1) \<le> m" and hi: "m < 2 ^ k" by (auto simp: km k_def)
  have "m + 1 \<le> 2 ^ k" using hi by simp
  then have "(of_int (m + 1) :: rat) \<le> of_int (2 ^ k)" by (simp only: of_int_le_iff)
  then have yk: "y \<le> 2 ^ k" using ym by simp
  have p1: "(2::rat) powi (- int k) = 1 / 2 ^ k"
    by (simp add: power_int_minus divide_inverse)
  have "1 / 2 ^ k \<le> 1 / y" using y1 yk by (intro divide_left_mono) auto
  then have "1 / 2 ^ k \<le> x" by (simp add: y_def)
  then have A: "2 powi binade x \<le> x" by (simp only: b p1)
  have "(of_int (2 ^ (k - 1)) :: rat) \<le> of_int m" using lo by (simp only: of_int_le_iff)
  then have "(2::rat) ^ (k - 1) \<le> of_int m" by simp
  then have "(2::rat) ^ (k - 1) < y" using my by (rule le_less_trans)
  then have q: "1 / y < 1 / 2 ^ (k - 1)" using y1 by (intro divide_strict_left_mono) auto
  have p2: "(2::rat) powi (- int k + 1) = 1 / 2 ^ (k - 1)"
  proof -
    have "- int k + 1 = - int (k - 1)" using k1 by simp
    then have "(2::rat) powi (- int k + 1) = 2 powi (- int (k - 1))" by (simp only:)
    also have "\<dots> = 1 / 2 ^ (k - 1)" by (simp only: power_int_minus power_int_of_nat divide_inverse mult_1)
    finally show ?thesis .
  qed
  have "x < 1 / 2 ^ (k - 1)" using q by (simp add: y_def)
  then have B: "x < 2 powi (binade x + 1)" by (simp only: b p2)
  from A B show ?thesis ..
qed

lemma binade_bounds:
  assumes "0 < x"
  shows "2 powi binade x \<le> x" and "x < 2 powi (binade x + 1)"
  using binade_ge1[of x] binade_lt1[of x] assms by (cases "1 \<le> x"; simp)+

lemma binade_mono:
  assumes "0 < x" "x \<le> y"
  shows "binade x \<le> binade y"
proof (rule ccontr)
  assume "\<not> binade x \<le> binade y"
  then have "binade y + 1 \<le> binade x" by simp
  then have "(2::rat) powi (binade y + 1) \<le> 2 powi binade x"
    by (intro power_int_increasing) auto
  moreover have "y < 2 powi (binade y + 1)" using assms by (intro binade_bounds) auto
  moreover have "2 powi binade x \<le> x" using assms by (intro binade_bounds)
  ultimately show False using assms by linarith
qed

lemma scaled_bounds:
  assumes "0 < x"
  shows "2 ^ 52 \<le> x / 2 powi (binade x - 52)" and "x / 2 powi (binade x - 52) < 2 ^ 53"
proof -
  have e: "(2::rat) powi (binade x - 52) = 2 powi binade x / 2 ^ 52"
    by (subst power_int_diff) auto
  have p: "(0::rat) < 2 powi binade x" by simp
  have lo: "2 powi binade x \<le> x" and hi: "x < 2 powi binade x * 2"
    using binade_bounds[OF assms] by (simp_all add: power_int_add)
  define u where "u = x / 2 powi binade x"
  have s: "x / 2 powi (binade x - 52) = u * 2 ^ 52" unfolding e u_def by simp
  have "1 \<le> u" unfolding u_def using lo p by (simp add: le_divide_eq)
  then show "2 ^ 52 \<le> x / 2 powi (binade x - 52)" unfolding s by simp
  have "u < 2" unfolding u_def using hi p by (simp add: divide_less_eq)
  then show "x / 2 powi (binade x - 52) < 2 ^ 53" unfolding s by simp
qed

lemma fl_pos: "0 < x \<Longrightarrow> fl x = of_int (rne (x / 2 powi (binade x - 52))) * 2 powi (binade x - 52)"
  by (simp add: fl_def Let_def)

lemma fl_range:
  assumes "0 < x"
  shows "2 powi binade x \<le> fl x" and "fl x \<le> 2 powi (binade x + 1)"
proof -
  let ?e = "binade x - 52"
  let ?s = "x / 2 powi ?e"
  have p: "(0::rat) < 2 powi ?e" by simp
  have "rne (of_int (2 ^ 52)) \<le> rne ?s" using scaled_bounds(1)[OF assms] by (intro rne_mono) simp
  then have a: "2 ^ 52 \<le> rne ?s" by (simp only: rne_of_int)
  have "rne ?s \<le> rne (of_int (2 ^ 53))" using scaled_bounds(2)[OF assms] by (intro rne_mono) simp
  then have b: "rne ?s \<le> 2 ^ 53" by (simp only: rne_of_int)
  have a': "(2::rat) ^ 52 \<le> of_int (rne ?s)" using a by (metis of_int_le_iff of_int_numeral of_int_power)
  have b': "of_int (rne ?s) \<le> (2::rat) ^ 53" using b by (metis of_int_le_iff of_int_numeral of_int_power)
  have e1: "(2::rat) powi binade x = 2 ^ 52 * 2 powi ?e"
    by (subst power_int_diff) auto
  have e2: "(2::rat) powi (binade x + 1) = 2 ^ 53 * 2 powi ?e"
    by (subst power_int_diff) (auto simp: power_int_add)
  show "2 powi binade x \<le> fl x"
    unfolding fl_pos[OF assms] e1 using a' p by (intro mult_right_mono) auto
  show "fl x \<le> 2 powi (binade x + 1)"
    unfolding fl_pos[OF assms] e2 using b' p by (intro mult_right_mono) auto
qed

lemma fl_gt0: "0 < x \<Longrightarrow> 0 < fl x"
  using fl_range(1)[of x] zero_less_power_int[of "2::rat" "binade x"] by linarith

lemma fl_mono:
  assumes "0 < x" "x \<le> y"
  shows "fl x \<le> fl y"
proof -
  have y: "0 < y" using assms by linarith
  have le: "binade x \<le> binade y" using assms by (rule binade_mono)
  show ?thesis
  proof (cases "binade x = binade y")
    case True
    let ?e = "binade y - 52"
    have p: "(0::rat) < 2 powi ?e" by simp
    have "x / 2 powi ?e \<le> y / 2 powi ?e" using assms p by (simp add: divide_right_mono)
    then have "rne (x / 2 powi ?e) \<le> rne (y / 2 powi ?e)" by (rule rne_mono)
    then have "(of_int (rne (x / 2 powi ?e)) :: rat) \<le> of_int (rne (y / 2 powi ?e))"
      by (simp only: of_int_le_iff)
    then have "(of_int (rne (x / 2 powi ?e)) :: rat) * 2 powi ?e \<le> of_int (rne (y / 2 powi ?e)) * 2 powi ?e"
      using p by (intro mult_right_mono) auto
    then show ?thesis unfolding fl_pos[OF assms(1)] fl_pos[OF y] True .
  next
    case False
    then have "binade x + 1 \<le> binade y" using le by simp
    then have "(2::rat) powi (binade x + 1) \<le> 2 powi binade y"
      by (intro power_int_increasing) auto
    then show ?thesis using fl_range(2)[OF assms(1)] fl_range(1)[OF y] by linarith
  qed
qed

lemma fl_error:
  assumes "0 < x"
  shows "\<bar>fl x - x\<bar> \<le> x / 2 ^ 53"
proof -
  let ?e = "binade x - 52"
  let ?s = "x / 2 powi ?e"
  have p: "(0::rat) < 2 powi ?e" by simp
  have x: "x = ?s * 2 powi ?e" by simp
  have "fl x - x = (of_int (rne ?s) - ?s) * 2 powi ?e"
    unfolding fl_pos[OF assms] by (simp add: algebra_simps)
  then have "\<bar>fl x - x\<bar> = \<bar>of_int (rne ?s) - ?s\<bar> * 2 powi ?e"
    using p by (simp add: abs_mult)
  also have "\<dots> \<le> 1/2 * 2 powi ?e" using rne_error[of ?s] p by (intro mult_right_mono) auto
  also have "\<dots> = 2 powi binade x / 2 ^ 53"
    by (subst power_int_diff) auto
  also have "\<dots> \<le> x / 2 ^ 53" using binade_bounds(1)[OF assms] by (simp add: divide_right_mono)
  finally show ?thesis .
qed

lemma fl_1: "fl 1 = 1" by code_simp
lemma fl_100: "fl 100 = 100" by code_simp

lemma percent_floor:
  assumes "1 \<le> j" "1 \<le> N"
  shows "progress_percent j N = \<lfloor>fl (fl (of_nat j / of_nat N) * 100)\<rfloor>"
proof -
  have "(0::rat) < of_nat j / of_nat N" using assms by simp
  then have "0 < fl (of_nat j / of_nat N) * 100" using fl_gt0 by simp
  then have "0 < fl (fl (of_nat j / of_nat N) * 100)" by (rule fl_gt0)
  then show ?thesis by (simp add: progress_percent_def py_int_def)
qed

lemma percent_mono:
  assumes "1 \<le> j" "j \<le> k" "1 \<le> N"
  shows "progress_percent j N \<le> progress_percent k N"
proof -
  have q: "(0::rat) < of_nat j / of_nat N" using assms by simp
  have "(of_nat j :: rat) / of_nat N \<le> of_nat k / of_nat N"
    using assms by (simp add: divide_right_mono)
  then have "fl (of_nat j / of_nat N) \<le> fl (of_nat k / of_nat N)" using q by (intro fl_mono)
  then have "fl (of_nat j / of_nat N) * 100 \<le> fl (of_nat k / of_nat N) * 100" by simp
  moreover have "0 < fl (of_nat j / of_nat N) * 100" using fl_gt0[OF q] by simp
  ultimately have "fl (fl (of_nat j / of_nat N) * 100) \<le> fl (fl (of_nat k / of_nat N) * 100)"
    by (intro fl_mono)
  then show ?thesis using assms by (simp add: percent_floor floor_mono)
qed

lemma percent_final:
  assumes "1 \<le> N"
  shows "progress_percent N N = 100"
proof -
  have "(of_nat N :: rat) / of_nat N = 1" using assms by simp
  then show ?thesis by (simp add: progress_percent_def fl_1 fl_100 py_int_def)
qed

lemma percent_error:
  assumes "1 \<le> j" "j \<le> N"
  shows "\<bar>fl (fl (of_nat j / of_nat N) * 100) - 100 * of_nat j / of_nat N\<bar> \<le> 300 / 2 ^ 53"
proof -
  define q :: rat where "q = of_nat j / of_nat N"
  define t where "t = fl q * 100"
  define eps :: rat where "eps = 1 / 2 ^ 53"
  have eps: "0 < eps" "eps \<le> 1" by (simp_all add: eps_def)
  have q0: "0 < q" and q1: "q \<le> 1" using assms by (simp_all add: q_def)
  have "\<bar>fl q - q\<bar> \<le> q / 2 ^ 53" using q0 by (rule fl_error)
  then have e1: "\<bar>fl q - q\<bar> \<le> q * eps" by (simp add: eps_def)
  have t0: "0 < t" using fl_gt0[OF q0] by (simp add: t_def)
  have "\<bar>fl t - t\<bar> \<le> t / 2 ^ 53" using t0 by (rule fl_error)
  then have e2: "\<bar>fl t - t\<bar> \<le> t * eps" by (simp add: eps_def)
  have "q * eps \<le> 1 * eps" using q1 eps by (intro mult_right_mono) auto
  then have a1: "fl q - q \<le> eps" and a2: "- (fl q - q) \<le> eps"
    using abs_le_D1[OF e1] abs_le_D2[OF e1] by linarith+
  have b1: "t - 100 * q \<le> 100 * eps" and b2: "- (t - 100 * q) \<le> 100 * eps"
    using a1 a2 unfolding t_def by linarith+
  have "t \<le> 200" using b1 q1 eps by linarith
  then have "t * eps \<le> 200 * eps" using eps by (intro mult_right_mono) auto
  then have c1: "fl t - t \<le> 200 * eps" and c2: "- (fl t - t) \<le> 200 * eps"
    using abs_le_D1[OF e2] abs_le_D2[OF e2] by linarith+
  have "fl t - 100 * q \<le> 300 * eps" using b1 c1 by linarith
  moreover have "- (fl t - 100 * q) \<le> 300 * eps" using b2 c2 by linarith
  ultimately have "\<bar>fl t - 100 * q\<bar> \<le> 300 * eps" by (rule abs_leI)
  then show ?thesis by (simp add: t_def q_def eps_def)
qed

lemma percent_bounds:
  assumes "1 \<le> j" "j \<le> N" "N < 2 ^ 44"
  shows "int (100 * j div N) - 1 \<le> progress_percent j N"
    and "progress_percent j N \<le> int (100 * j div N)"
proof -
  define x :: rat where "x = 100 * of_nat j / of_nat N"
  define r where "r = fl (fl (of_nat j / of_nat N) * 100)"
  define d where "d = 100 * j div N"
  have N0: "0 < N" using assms by simp
  have err: "\<bar>r - x\<bar> \<le> 300 / 2 ^ 53" unfolding r_def x_def using assms(1,2) by (rule percent_error)
  have pr: "progress_percent j N = \<lfloor>r\<rfloor>" unfolding r_def using assms by (intro percent_floor) auto
  have dm: "100 * j = d * N + 100 * j mod N" by (simp add: d_def)
  have ml: "100 * j mod N \<le> N - 1" using N0 by (metis Suc_pred less_Suc_eq_le mod_less_divisor One_nat_def)
  have xeq: "x = of_nat d + of_nat (100 * j mod N) / of_nat N"
  proof -
    have "(of_nat (100 * j) :: rat) = of_nat (d * N + 100 * j mod N)" using dm by simp
    then have "(100 * of_nat j :: rat) = of_nat d * of_nat N + of_nat (100 * j mod N)" by simp
    then show ?thesis using N0 by (simp add: x_def field_simps)
  qed
  have xlo: "of_nat d \<le> x" unfolding xeq by simp
  have "(of_nat (100 * j mod N) :: rat) \<le> of_nat (N - 1)" using ml by (simp only: of_nat_le_iff)
  then have "(of_nat (100 * j mod N) :: rat) \<le> of_nat N - 1" using N0 by (simp add: of_nat_diff)
  then have "(of_nat (100 * j mod N) :: rat) / of_nat N \<le> (of_nat N - 1) / of_nat N"
    by (simp add: divide_right_mono)
  also have "\<dots> = 1 - 1 / of_nat N" using N0 by (simp add: field_simps)
  finally have xhi: "x \<le> of_nat d + 1 - 1 / of_nat N" unfolding xeq by simp
  have "(of_nat N :: rat) < of_nat (2 ^ 44)" using assms(3) by (simp only: of_nat_less_iff)
  then have "(of_nat N :: rat) < 2 ^ 44" by simp
  then have "1 / 2 ^ 44 < 1 / (of_nat N :: rat)" using N0 by (intro divide_strict_left_mono) auto
  then have small: "300 / 2 ^ 53 < 1 / (of_nat N :: rat)" by simp
  have "of_int (int d - 1) \<le> r" using abs_le_D2[OF err] xlo by simp
  then have "int d - 1 \<le> \<lfloor>r\<rfloor>" by (simp only: le_floor_iff)
  then show "int (100 * j div N) - 1 \<le> progress_percent j N" by (simp add: pr d_def)
  have "r < of_int (int d + 1)" using abs_le_D1[OF err] xhi small by simp
  then have "\<lfloor>r\<rfloor> < int d + 1" by (simp only: floor_less_iff)
  then show "progress_percent j N \<le> int (100 * j div N)" by (simp add: pr d_def)
qed

section \<open>One item\<close>

lemmas path_defs = is_video_def lower_def lower_char_def path_suffix_def path_name_def rfind_def
  video_extensions_def temp_audio_path_of_def rsplit_dot_def

lemmas worker_defs = transcribe_file_def transcribe_audio_def on_exception_def call_engine_def
  extract_audio_from_video_def

lemma transcribe_file_terminal:
  "transcribe_file w env disk f idx = (f', evs, disk') \<Longrightarrow> terminal f'"
  by (auto simp: worker_defs Let_def terminal_def
      split: if_splits sum.splits prod.splits extract_outcome.splits engine_outcome.splits
        option.splits remove_outcome.splits)

lemma transcribe_file_no_progress:
  "transcribe_file w env disk f idx = (f', evs, disk') \<Longrightarrow> progress_values evs = []"
  by (auto simp: worker_defs Let_def progress_values_def
      split: if_splits sum.splits prod.splits extract_outcome.splits engine_outcome.splits
        option.splits remove_outcome.splits)

lemma progress_values_append: "progress_values (xs @ ys) = progress_values xs @ progress_values ys"
  by (simp add: progress_values_def)

lemma settle_step:
  assumes "idx < length fs"
    and "settle w envs n (fs, evs, disk, c) idx = (fs', evs', disk', c')"
  shows "length fs' = length fs" and "c' = c + 1"
    and "progress_values evs' = progress_values evs @ [progress_percent (c + 1) n]"
    and "terminal (fs' ! idx)" and "\<forall>i. i \<noteq> idx \<longrightarrow> fs' ! i = fs ! i"
proof -
  obtain f1 ev1 d1 where t: "transcribe_file w (envs idx) disk (fs ! idx) (int idx) = (f1, ev1, d1)"
    by (metis prod_cases3)
  from assms t have eq: "fs' = fs[idx := f1]" "evs' = evs @ ev1 @ [FileProgress (progress_percent (c + 1) n)]"
    "c' = c + 1"
    by (auto simp: settle_def)
  show "length fs' = length fs" by (simp add: eq)
  show "c' = c + 1" by (simp add: eq)
  show "progress_values evs' = progress_values evs @ [progress_percent (c + 1) n]"
    using transcribe_file_no_progress[OF t]
    by (simp add: eq progress_values_append) (simp add: progress_values_def)
  show "terminal (fs' ! idx)" using transcribe_file_terminal[OF t] assms(1) by (simp add: eq)
  show "\<forall>i. i \<noteq> idx \<longrightarrow> fs' ! i = fs ! i" by (simp add: eq)
qed

lemma foldl_settle:
  assumes "\<forall>i\<in>set order. i < length fs"
    and "foldl (settle w envs n) (fs, evs, disk, c) order = (fs', evs', disk', c')"
  shows "length fs' = length fs \<and> c' = c + length order
     \<and> progress_values evs' = progress_values evs @ map (\<lambda>j. progress_percent j n) [c + 1 ..< c + length order + 1]
     \<and> (\<forall>i<length fs. i \<in> set order \<or> terminal (fs ! i) \<longrightarrow> terminal (fs' ! i))"
  using assms
proof (induction order arbitrary: fs evs disk c)
  case Nil
  then show ?case by simp
next
  case (Cons idx rest)
  obtain fs1 evs1 disk1 c1 where s: "settle w envs n (fs, evs, disk, c) idx = (fs1, evs1, disk1, c1)"
    by (metis prod_cases4)
  have idx: "idx < length fs" using Cons.prems(1) by simp
  note st = settle_step[OF idx s]
  have r: "foldl (settle w envs n) (fs1, evs1, disk1, c1) rest = (fs', evs', disk', c')"
    using Cons.prems(2) s by simp
  have "\<forall>i\<in>set rest. i < length fs1" using Cons.prems(1) st(1) by simp
  from Cons.IH[OF this r]
  have ih: "length fs' = length fs1" "c' = c1 + length rest"
    "progress_values evs' = progress_values evs1 @ map (\<lambda>j. progress_percent j n) [c1 + 1 ..< c1 + length rest + 1]"
    "\<forall>i<length fs1. i \<in> set rest \<or> terminal (fs1 ! i) \<longrightarrow> terminal (fs' ! i)"
    by auto
  have a: "length fs' = length fs" using ih(1) st(1) by simp
  have b: "c' = c + length (idx # rest)" using ih(2) st(2) by simp
  have "[c + 1 ..< c + length rest + 2] = (c + 1) # [Suc (c + 1) ..< c + length rest + 2]"
    by (rule upt_conv_Cons) simp
  moreover have "c + length (idx # rest) + 1 = c + length rest + 2" by simp
  moreover have "[c1 + 1 ..< c1 + length rest + 1] = [Suc (c + 1) ..< c + length rest + 2]"
    by (simp add: st(2))
  ultimately have d: "progress_values evs' = progress_values evs @ map (\<lambda>j. progress_percent j n) [c + 1 ..< c + length (idx # rest) + 1]"
    using ih(3) st(3) by (simp del: upt_Suc)
  have e: "\<forall>i<length fs. i \<in> set (idx # rest) \<or> terminal (fs ! i) \<longrightarrow> terminal (fs' ! i)"
  proof (intro allI impI)
    fix i assume i: "i < length fs" and h: "i \<in> set (idx # rest) \<or> terminal (fs ! i)"
    have "i \<in> set rest \<or> terminal (fs1 ! i)"
    proof (cases "i = idx")
      case True then show ?thesis using st(4) by simp
    next
      case False then show ?thesis using h st(5) by auto
    qed
    then show "terminal (fs' ! i)" using ih(4) i st(1) by auto
  qed
  from a b d e show ?case by blast
qed

section \<open>A whole run\<close>

lemma run_ok_unfold:
  assumes "run w LoadOk envs order disk = (fs, evs, disk')"
  obtains evs1 c where
    "foldl (settle w envs (length (files w)))
       (files w, [ProgressUpdate (- 1) loading_text status_loading,
                  ProgressUpdate (- 1) loaded_text status_done], disk, 0) order
     = (fs, evs1, disk', c)" and "evs = evs1 @ [Finished]"
  using assms by (auto simp: run_def Let_def split: prod.splits)

lemma run_progress_values:
  assumes "completion_order (length (files w)) order"
    and "run w LoadOk envs order disk = (fs, evs, disk')"
  shows "progress_values evs
     = map (\<lambda>j. progress_percent j (length (files w))) [1 ..< Suc (length (files w))]"
proof -
  from assms(2) obtain evs1 c where
    f: "foldl (settle w envs (length (files w)))
       (files w, [ProgressUpdate (- 1) loading_text status_loading,
                  ProgressUpdate (- 1) loaded_text status_done], disk, 0) order
     = (fs, evs1, disk', c)" and e: "evs = evs1 @ [Finished]"
    by (rule run_ok_unfold)
  have r: "\<forall>i\<in>set order. i < length (files w)" using assms(1) by (simp add: completion_order_def)
  have len: "length order = length (files w)"
    using assms(1) by (metis completion_order_def distinct_card card_atLeastLessThan diff_zero)
  from foldl_settle[OF r f]
  have "progress_values evs1 = progress_values [ProgressUpdate (- 1) loading_text status_loading,
                  ProgressUpdate (- 1) loaded_text status_done]
        @ map (\<lambda>j. progress_percent j (length (files w))) [0 + 1 ..< 0 + length order + 1]"
    by blast
  then show ?thesis
    by (simp add: e len progress_values_append del: upt_Suc) (simp add: progress_values_def)
qed

lemma run_terminal:
  assumes "completion_order (length (files w)) order"
    and "run w LoadOk envs order disk = (fs, evs, disk')"
  shows "length fs = length (files w)" and "\<forall>f\<in>set fs. terminal f" and "last evs = Finished"
proof -
  from assms(2) obtain evs1 c where
    f: "foldl (settle w envs (length (files w)))
       (files w, [ProgressUpdate (- 1) loading_text status_loading,
                  ProgressUpdate (- 1) loaded_text status_done], disk, 0) order
     = (fs, evs1, disk', c)" and e: "evs = evs1 @ [Finished]"
    by (rule run_ok_unfold)
  have r: "\<forall>i\<in>set order. i < length (files w)" using assms(1) by (simp add: completion_order_def)
  from foldl_settle[OF r f]
  have l: "length fs = length (files w)"
    and t: "\<forall>i<length (files w). i \<in> set order \<or> terminal (files w ! i) \<longrightarrow> terminal (fs ! i)"
    by blast+
  show "length fs = length (files w)" by (rule l)
  show "\<forall>f\<in>set fs. terminal f"
  proof
    fix f assume "f \<in> set fs"
    then obtain i where i: "i < length fs" "fs ! i = f" by (auto simp: in_set_conv_nth)
    then have "i \<in> set order" using assms(1) l by (simp add: completion_order_def)
    then show "terminal f" using t i l by auto
  qed
  show "last evs = Finished" by (simp add: e)
qed

lemma sorted_percent: "1 \<le> N \<Longrightarrow> sorted (map (\<lambda>j. progress_percent j N) [1 ..< Suc N])"
proof (unfold sorted_iff_nth_mono, intro allI impI)
  fix i j
  assume N: "1 \<le> N" and ij: "i \<le> j" and "j < length (map (\<lambda>j. progress_percent j N) [1 ..< Suc N])"
  then have j: "j < N" by (simp del: upt_Suc)
  then have i: "i < N" using ij by simp
  have a: "map (\<lambda>j. progress_percent j N) [1 ..< Suc N] ! i = progress_percent (1 + i) N"
    using i by (simp del: upt_Suc)
  have b: "map (\<lambda>j. progress_percent j N) [1 ..< Suc N] ! j = progress_percent (1 + j) N"
    using j by (simp del: upt_Suc)
  show "map (\<lambda>j. progress_percent j N) [1 ..< Suc N] ! i \<le> map (\<lambda>j. progress_percent j N) [1 ..< Suc N] ! j"
    unfolding a b using ij N by (intro percent_mono) auto
qed

section \<open>Paths and the pool\<close>







lemma filter_update_count:
  "i < length xs \<Longrightarrow>
     length (filter P (xs[i := y])) + (if P (xs ! i) then 1 else 0)
       = length (filter P xs) + (if P y then 1 else 0)"
proof (induction xs arbitrary: i)
  case Nil
  then show ?case by simp
next
  case (Cons x xs)
  then show ?case by (cases i) auto
qed

lemma first_queued_Some:
  assumes "first_queued ps = Some i"
  shows "i < length ps \<and> ps ! i = Queued"
proof -
  from assms have q: "Queued \<in> set ps" and i: "i = length (takeWhile (\<lambda>p. p \<noteq> Queued) ps)"
    by (auto simp: first_queued_def split: if_splits)
  have "takeWhile (\<lambda>p. p \<noteq> Queued) ps \<noteq> ps" using q by (auto simp: takeWhile_eq_all_conv)
  then have "length (takeWhile (\<lambda>p. p \<noteq> Queued) ps) \<noteq> length ps"
    by (metis takeWhile_eq_take take_all_iff le_refl takeWhile_eq_all_conv length_takeWhile_le order.order_iff_strict nth_length_takeWhile)
  then have l: "i < length ps" using length_takeWhile_le[of "\<lambda>p. p \<noteq> Queued" ps] i by simp
  then have "\<not> (ps ! i \<noteq> Queued)" unfolding i by (rule nth_length_takeWhile)
  then show ?thesis using l by simp
qed

lemma pool_apply_busy:
  assumes "pool_apply w ps a = Some ps'" "busy ps \<le> max_workers w"
  shows "busy ps' \<le> max_workers w"
proof (cases a)
  case StartNext
  with assms obtain i where b: "busy ps < max_workers w" and q: "first_queued ps = Some i"
    and ps': "ps' = ps[i := (if is_video (file_path (files w ! i)) then Extracting else Transcribing)]"
    by (auto split: if_splits option.splits)
  from first_queued_Some[OF q] have i: "i < length ps" "ps ! i = Queued" by auto
  from filter_update_count[OF i(1), of "\<lambda>p. p = Extracting \<or> p = Transcribing"
      "if is_video (file_path (files w ! i)) then Extracting else Transcribing"]
  have "busy ps' = busy ps + 1" using i(2) by (simp add: busy_def ps')
  then show ?thesis using b by simp
next
  case (Extracted i)
  with assms have i: "i < length ps" "ps ! i = Extracting" and ps': "ps' = ps[i := Transcribing]"
    by (auto split: if_splits)
  from filter_update_count[OF i(1), of "\<lambda>p. p = Extracting \<or> p = Transcribing" Transcribing]
  have "busy ps' = busy ps" using i(2) by (simp add: busy_def ps')
  then show ?thesis using assms(2) by simp
next
  case (ExtractFailed i)
  with assms have i: "i < length ps" "ps ! i = Extracting" and ps': "ps' = ps[i := Settled]"
    by (auto split: if_splits)
  from filter_update_count[OF i(1), of "\<lambda>p. p = Extracting \<or> p = Transcribing" Settled]
  have "busy ps' + 1 = busy ps" using i(2) by (simp add: busy_def ps')
  then show ?thesis using assms(2) by simp
next
  case (Transcribed i)
  with assms have i: "i < length ps" "ps ! i = Transcribing" and ps': "ps' = ps[i := Settled]"
    by (auto split: if_splits)
  from filter_update_count[OF i(1), of "\<lambda>p. p = Extracting \<or> p = Transcribing" Settled]
  have "busy ps' + 1 = busy ps" using i(2) by (simp add: busy_def ps')
  then show ?thesis using assms(2) by simp
qed

lemma pool_run_busy:
  "pool_run w ps sched = Some ps' \<Longrightarrow> busy ps \<le> max_workers w \<Longrightarrow> busy ps' \<le> max_workers w"
proof (induction sched arbitrary: ps)
  case Nil
  then show ?case by simp
next
  case (Cons a sched)
  then show ?case by (auto split: option.splits dest: pool_apply_busy)
qed

lemma in_engine_le_busy: "in_engine ps \<le> busy ps"
proof -
  have "length (filter (\<lambda>p. p = Transcribing) ps) \<le> length (filter (\<lambda>p. p = Extracting \<or> p = Transcribing) ps)"
    by (induction ps) auto
  then show ?thesis by (simp add: in_engine_def busy_def)
qed


section \<open>The claims\<close>

text \<open>
  C1, at the input where the code leaves the claim: a video whose audio is extracted and
  transcribed, and whose temporary file then cannot be deleted. The call of line 83 is not
  guarded, so its exception reaches the handler of line 85: the item that was Done becomes
  Failed, the message of the deletion becomes its error detail, a Failed signal follows the
  Done signal, and the transcript stays in place beside the error detail.
\<close>

theorem deletion_failure_replaces_success:
  "transcribe_file clip_worker locked_env {} (new_item ''clip.mp4'') 0 =
     (\<lparr>file_path = ''clip.mp4'', status = status_error, transcription = ''hello'',
        error_message = ''Permission denied''\<rparr>,
      [ProgressUpdate 0 ''clip.mp4'' status_in_progress,
       ProgressUpdate 0 ''clip.mp4'' status_done,
       ProgressUpdate 0 ''clip.mp4'' (error_text ''Permission denied'')],
      {''clip_temp_audio.wav''})"
  by (simp add: worker_defs clip_worker_def locked_env_def new_item_def path_defs Let_def)




text \<open>
  C3, at the input where the code leaves the claim: a video whose audio track cannot be
  decoded, so that writing the temporary file fails part-way. The exception leaves
  \<^verbatim>\<open>extract_audio_from_video\<close> before line 61 assigns \<^verbatim>\<open>temp_audio_path\<close>; the
  handler finds the variable still \<^verbatim>\<open>None\<close> and deletes nothing. The item is Failed,
  and the partial file is still on the disk.
\<close>

theorem failed_extraction_leaves_temp_file:
  "transcribe_file clip_worker undecodable_env {} (new_item ''clip.mp4'') 0 =
     (\<lparr>file_path = ''clip.mp4'', status = status_error, transcription = [],
        error_message = extraction_error_text ''Invalid data found''\<rparr>,
      [ProgressUpdate 0 ''clip.mp4'' status_in_progress,
       ProgressUpdate 0 ''clip.mp4'' (error_text (extraction_error_text ''Invalid data found''))],
      {''clip_temp_audio.wav''})"
  by (simp add: worker_defs clip_worker_def undecodable_env_def new_item_def path_defs Let_def)

text \<open>
  C4 does not hold as stated: with the two pool threads that the application configures and
  two audio items, both tasks are inside the engine call at the same time.
\<close>

theorem two_engine_calls_overlap:
  "max_workers audio_worker = 2
     \<and> pool_run audio_worker (pool_start audio_worker) [StartNext, StartNext]
         = Some [Transcribing, Transcribing]
     \<and> in_engine [Transcribing, Transcribing] = 2"
  by (simp add: audio_worker_def pool_start_def busy_def first_queued_def in_engine_def
      new_item_def path_defs)

text \<open>
  C4, amended. The calls into the engine are not serialized; what bounds them is the size of
  the pool. After any schedule of the pool, the number of tasks inside the engine call is at
  most \<open>max_workers\<close>.
\<close>

theorem engine_calls_bounded:
  assumes "pool_run w (pool_start w) sched = Some ps"
  shows "in_engine ps \<le> max_workers w"
proof -
  have "busy (pool_start w) = 0" by (simp add: busy_def pool_start_def)
  then have "busy ps \<le> max_workers w" using pool_run_busy[OF assms] by simp
  then show ?thesis using in_engine_le_busy[of ps] by simp
qed

text \<open>C4, amended, at a schedule where the first of two audio items has settled.\<close>

theorem engine_calls_bounded_witness:
  "pool_run audio_worker (pool_start audio_worker) [StartNext, StartNext, Transcribed 0]
       = Some [Settled, Transcribing]
     \<and> in_engine [Settled, Transcribing] \<le> max_workers audio_worker"
proof -
  have h: "pool_run audio_worker (pool_start audio_worker) [StartNext, StartNext, Transcribed 0]
       = Some [Settled, Transcribing]"
    by (simp add: audio_worker_def pool_start_def busy_def first_queued_def new_item_def path_defs)
  from engine_calls_bounded[OF h] h show ?thesis by simp
qed

text \<open>
  C5. A start request that is accepted resets every item and creates the worker. If loading
  the model then raises, the run emits the loading signal, one run-level failure signal and
  the completion signal, and nothing else: no per-item signal and no progress value. The
  worklist is the one the request left: every item waiting, with empty transcript and empty
  error detail.
\<close>

theorem load_failure_processes_nothing:
  assumes "start_transcription a = (a', [])" and "app_worker a' = Some w"
  shows "run w (LoadRaises e) envs order disk
       = (files w,
          [ProgressUpdate (- 1) loading_text status_loading,
           ProgressUpdate (- 1) (error_text e) status_error, Finished],
          disk)
     \<and> item_events (emitted (run w (LoadRaises e) envs order disk)) = []
     \<and> progress_values (emitted (run w (LoadRaises e) envs order disk)) = []
     \<and> app_files a' = files w
     \<and> (\<forall>f\<in>set (files w).
            status f = status_waiting \<and> transcription f = [] \<and> error_message f = [])"
  using assms
  by (auto simp: run_def Let_def item_events_def progress_values_def start_transcription_def
        reset_item_def emitted_def split: if_splits)

text \<open>C5, at a worklist of one item that had failed in an earlier run.\<close>

theorem load_failure_processes_nothing_witness:
  "start_transcription idle_app = (restarted_app, [])
     \<and> app_worker restarted_app = Some restarted_worker
     \<and> files_after (run restarted_worker (LoadRaises ''model not found'') all_silent [0] {})
          = [new_item ''talk.mp3'']
     \<and> item_events (emitted (run restarted_worker (LoadRaises ''model not found'') all_silent [0] {}))
          = []"
proof -
  have h1: "start_transcription idle_app = (restarted_app, [])"
    by (simp add: start_transcription_def idle_app_def restarted_app_def restarted_worker_def
        failed_item_def reset_item_def new_item_def Let_def)
  have h2: "app_worker restarted_app = Some restarted_worker" by (simp add: restarted_app_def)
  have f: "files restarted_worker = [new_item ''talk.mp3'']" by (simp add: restarted_worker_def)
  note t = load_failure_processes_nothing[OF h1 h2, of "''model not found''" all_silent "[0]" "{}"]
  have "files_after (run restarted_worker (LoadRaises ''model not found'') all_silent [0] {})
      = [new_item ''talk.mp3'']"
    using t[THEN conjunct1] f by (simp add: files_after_def)
  then show ?thesis using h1 h2 t[THEN conjunct2, THEN conjunct1] by blast
qed

text \<open>
  C6. When the model loads and every submitted future completes, then after the completion
  signal every item of the worklist is in exactly one of the two terminal states, Done or
  Failed, and none is waiting or in progress. This holds for every completion order and
  for every outcome of extraction, engine and deletion.
\<close>

theorem run_all_settled:
  assumes "completion_order (length (files w)) order"
  shows "length (files_after (run w LoadOk envs order disk)) = length (files w)
     \<and> last (emitted (run w LoadOk envs order disk)) = Finished
     \<and> (\<forall>f\<in>set (files_after (run w LoadOk envs order disk)).
            (status f = status_done) \<noteq> (status f = status_error)
            \<and> status f \<noteq> status_waiting \<and> status f \<noteq> status_in_progress)"
proof -
  obtain fs evs d where r: "run w LoadOk envs order disk = (fs, evs, d)"
    by (metis prod_cases3)
  have "\<forall>f\<in>set fs. terminal f" using assms r by (rule run_terminal(2))
  then have "\<forall>f\<in>set fs. (status f = status_done) \<noteq> (status f = status_error)
            \<and> status f \<noteq> status_waiting \<and> status f \<noteq> status_in_progress"
    by (auto simp: terminal_def status_done_def status_error_def status_waiting_def
        status_in_progress_def)
  then show ?thesis using run_terminal(1,3)[OF assms r] by (simp add: r files_after_def emitted_def)
qed

text \<open>C6, at two audio items of which the second completes first.\<close>

theorem run_all_settled_witness:
  "completion_order (length (files audio_worker)) [1, 0]
     \<and> length (files_after (run audio_worker LoadOk all_silent [1, 0] {})) = 2
     \<and> last (emitted (run audio_worker LoadOk all_silent [1, 0] {})) = Finished
     \<and> status (files_after (run audio_worker LoadOk all_silent [1, 0] {}) ! 0) \<noteq> status_waiting
     \<and> status (files_after (run audio_worker LoadOk all_silent [1, 0] {}) ! 1) \<noteq> status_in_progress"
proof -
  have h: "completion_order (length (files audio_worker)) [1, 0]"
    by (auto simp: completion_order_def audio_worker_def)
  note t = run_all_settled[OF h, of all_silent "{}"]
  have l: "length (files_after (run audio_worker LoadOk all_silent [1, 0] {})) = 2"
    using t by (simp add: audio_worker_def)
  have "files_after (run audio_worker LoadOk all_silent [1, 0] {}) ! 0
      \<in> set (files_after (run audio_worker LoadOk all_silent [1, 0] {}))"
    and "files_after (run audio_worker LoadOk all_silent [1, 0] {}) ! 1
      \<in> set (files_after (run audio_worker LoadOk all_silent [1, 0] {}))"
    using l by simp_all
  then show ?thesis using t h l by blast
qed

text \<open>
  C7. In a run over at least one item in which the model loads, whatever the order in which
  the futures complete and whatever each item ends as, the progress values emitted are
  non-decreasing, there is one of them for every item, and the last one is exactly 100.
\<close>

theorem run_progress_monotone:
  assumes "completion_order (length (files w)) order"
    and "1 \<le> length (files w)"
  shows "sorted (progress_values (emitted (run w LoadOk envs order disk)))
     \<and> length (progress_values (emitted (run w LoadOk envs order disk))) = length (files w)
     \<and> last (progress_values (emitted (run w LoadOk envs order disk))) = 100"
proof -
  let ?N = "length (files w)"
  obtain fs evs d where r: "run w LoadOk envs order disk = (fs, evs, d)"
    by (metis prod_cases3)
  have pv: "progress_values evs = map (\<lambda>j. progress_percent j ?N) [1 ..< Suc ?N]"
    using assms(1) r by (rule run_progress_values)
  have ne: "[1 ..< Suc ?N] \<noteq> []" using assms(2) by (cases "files w") simp_all
  have "last [1 ..< Suc ?N] = ?N" using assms(2) by (cases "files w") simp_all
  then have "last (map (\<lambda>j. progress_percent j ?N) [1 ..< Suc ?N]) = progress_percent ?N ?N"
    using last_map[OF ne, of "\<lambda>j. progress_percent j ?N"] by (simp only:)
  then have l: "last (progress_values evs) = 100" using percent_final[OF assms(2)] pv by (simp only:)
  have s: "sorted (progress_values evs)" using sorted_percent[OF assms(2)] pv by (simp only:)
  have n: "length (progress_values evs) = ?N" unfolding pv by (simp del: upt_Suc)
  from s n l show ?thesis by (simp add: r emitted_def)
qed

text \<open>C7, at two audio items of which the second completes first.\<close>

theorem run_progress_monotone_witness:
  "completion_order (length (files audio_worker)) [1, 0] \<and> 1 \<le> length (files audio_worker)
     \<and> sorted (progress_values (emitted (run audio_worker LoadOk all_silent [1, 0] {})))
     \<and> length (progress_values (emitted (run audio_worker LoadOk all_silent [1, 0] {}))) = 2
     \<and> last (progress_values (emitted (run audio_worker LoadOk all_silent [1, 0] {}))) = 100"
proof -
  have h1: "completion_order (length (files audio_worker)) [1, 0]"
    by (auto simp: completion_order_def audio_worker_def)
  have h2: "1 \<le> length (files audio_worker)" by (simp add: audio_worker_def)
  have l: "length (files audio_worker) = 2" by (simp add: audio_worker_def)
  from run_progress_monotone[OF h1 h2, of all_silent "{}"] h1 h2 l show ?thesis by simp
qed

text \<open>
  C8. A start request that arrives while the worker of an earlier run is still running
  changes nothing: the application state, with its worklist and its worker, is returned as
  it was, and one warning is shown.
\<close>

theorem start_rejected_while_running:
  assumes "app_worker a \<noteq> None" and "worker_running a"
  shows "fst (start_transcription a) = a
     \<and> (\<exists>title msg. snd (start_transcription a) = [WarningBox title msg])"
  using assms by (simp add: start_transcription_def)

text \<open>C8, at an application whose worker is running over one item.\<close>

theorem start_rejected_while_running_witness:
  "app_worker restarted_app \<noteq> None \<and> worker_running restarted_app
     \<and> fst (start_transcription restarted_app) = restarted_app
     \<and> app_files (fst (start_transcription restarted_app)) = [new_item ''talk.mp3'']"
proof -
  have h1: "app_worker restarted_app \<noteq> None" by (simp add: restarted_app_def)
  have h2: "worker_running restarted_app" by (simp add: restarted_app_def)
  have f: "app_files restarted_app = [new_item ''talk.mp3'']" by (simp add: restarted_app_def)
  from start_rejected_while_running[OF h1 h2] h1 h2 f show ?thesis by simp
qed

text \<open>
  C9 does not hold as stated: in a run over fifty items the value emitted after the 29th
  settles is 57, and the integer truncation of 100 * 29 / 50 is 58. The quotient 29 / 50 is
  rounded to a binary64 number just below 0.58, and its product with 100 stays below 58.
\<close>

theorem progress_rounds_below_truncation:
  "length (files fifty_worker) = 50
     \<and> progress_values (emitted (run fifty_worker LoadOk all_silent [0..<50] {})) ! 28 = 57
     \<and> int (100 * 29 div 50) = 58"
proof -
  have c: "completion_order (length (files fifty_worker)) [0..<50]"
    by (simp add: completion_order_def fifty_worker_def)
  obtain fs evs d where r: "run fifty_worker LoadOk all_silent [0..<50] {} = (fs, evs, d)"
    by (metis prod_cases3)
  have "progress_values evs = map (\<lambda>j. progress_percent j 50) [1 ..< Suc 50]"
    using run_progress_values[OF c r] by (simp add: fifty_worker_def)
  then have "progress_values evs ! 28 = progress_percent 29 50" by (simp del: upt_Suc)
  moreover have "progress_percent 29 50 = 57" by code_simp
  moreover have "length (files fifty_worker) = 50" by (simp add: fifty_worker_def)
  ultimately show ?thesis by (simp add: r emitted_def)
qed

text \<open>
  C9, amended. In a run over \<open>N\<close> items, \<open>N\<close> below \<open>2 ^ 44\<close>, the value emitted
  after the \<open>j\<close>-th item settles is the integer truncation of \<open>100 * j / N\<close> or one less
  than it; the last value is exactly 100; and after one of three items the value is 33.
\<close>

theorem progress_near_truncation:
  assumes "completion_order (length (files w)) order"
    and "1 \<le> j" and "j \<le> length (files w)" and "length (files w) < 2 ^ 44"
  shows "progress_values (emitted (run w LoadOk envs order disk)) ! (j - 1)
           \<in> {int (100 * j div length (files w)) - 1, int (100 * j div length (files w))}
     \<and> last (progress_values (emitted (run w LoadOk envs order disk))) = 100
     \<and> progress_percent 1 3 = 33"
proof -
  let ?N = "length (files w)"
  obtain fs evs d where r: "run w LoadOk envs order disk = (fs, evs, d)"
    by (metis prod_cases3)
  have pv: "progress_values evs = map (\<lambda>j. progress_percent j ?N) [1 ..< Suc ?N]"
    using assms(1) r by (rule run_progress_values)
  have "j - 1 < ?N" using assms(2,3) by simp
  then have "progress_values evs ! (j - 1) = progress_percent (1 + (j - 1)) ?N"
    unfolding pv by (simp del: upt_Suc)
  then have nth: "progress_values evs ! (j - 1) = progress_percent j ?N" using assms(2) by simp
  have N1: "1 \<le> ?N" using assms(2,3) by simp
  have ne: "[1 ..< Suc ?N] \<noteq> []" using N1 by (cases "files w") simp_all
  have "last [1 ..< Suc ?N] = ?N" using N1 by (cases "files w") simp_all
  then have "last (map (\<lambda>j. progress_percent j ?N) [1 ..< Suc ?N]) = progress_percent ?N ?N"
    using last_map[OF ne, of "\<lambda>j. progress_percent j ?N"] by (simp only:)
  then have l: "last (progress_values evs) = 100" using percent_final[OF N1] pv by (simp only:)
  have b: "progress_percent j ?N \<in> {int (100 * j div ?N) - 1, int (100 * j div ?N)}"
    using percent_bounds[OF assms(2,3,4)] by auto
  have e: "progress_percent 1 3 = 33" by code_simp
  show ?thesis using nth l b e by (simp add: r emitted_def)
qed

text \<open>C9, amended, at the first of two audio items: the value is 49 or 50.\<close>

theorem progress_near_truncation_witness:
  "completion_order (length (files audio_worker)) [1, 0] \<and> (1::nat) \<le> 1
     \<and> 1 \<le> length (files audio_worker) \<and> length (files audio_worker) < 2 ^ 44
     \<and> progress_values (emitted (run audio_worker LoadOk all_silent [1, 0] {})) ! 0 \<in> {49, 50}
     \<and> last (progress_values (emitted (run audio_worker LoadOk all_silent [1, 0] {}))) = 100"
proof -
  have h1: "completion_order (length (files audio_worker)) [1, 0]"
    by (auto simp: completion_order_def audio_worker_def)
  have l: "length (files audio_worker) = 2" by (simp add: audio_worker_def)
  have h2: "(1::nat) \<le> 1" by simp
  have h3: "1 \<le> length (files audio_worker)" by (simp add: l)
  have h4: "length (files audio_worker) < 2 ^ 44" by (simp add: l)
  from progress_near_truncation[OF h1 h2 h3 h4, of all_silent "{}"] h1 h3 h4
  show ?thesis by (simp add: l)
qed



end
